theory Spec2Isabelle
  imports Main
begin

section \<open>Runtime values\<close>

text \<open>
  The repository declares zod schemas; every behaviour of a schema is the behaviour of
  zod's \<^verbatim>\<open>parse\<close>/\<^verbatim>\<open>safeParse\<close> on the declared schema value.  The schema
  declarations below are transcribed from the source files; the interpreter follows the
  parsing rules of the zod 3 classes the declarations use (\<^verbatim>\<open>ZodString\<close>,
  \<^verbatim>\<open>ZodDate\<close>, \<^verbatim>\<open>ZodEnum\<close>, \<^verbatim>\<open>ZodArray\<close>, \<^verbatim>\<open>ZodObject\<close>,
  \<^verbatim>\<open>ZodOptional\<close>, \<^verbatim>\<open>ZodDefault\<close>).

  A point in time is the number of milliseconds since the epoch, as \<^verbatim>\<open>Date.getTime()\<close>
  reports it.  A \<^verbatim>\<open>Date\<close> object whose time value is NaN (an "Invalid Date") is
  \<open>JDate None\<close>.  An object is the list of its own properties in insertion order; a
  property may hold \<^verbatim>\<open>undefined\<close>.  Properties inherited from a prototype are left
  out: no declared key is the name of one.  No schema modelled here inspects a number,
  so a number is an integer or NaN.
\<close>

type_synonym time = int

datatype jsval =
    JUndefined
  | JNull
  | JBool bool
  | JNum int
  | JNaN
  | JStr string
  | JDate "time option"
  | JArr "jsval list"
  | JObj "(string \<times> jsval) list"

datatype parsed_type =
    PUndefined | PNull | PBoolean | PNumber | PNan | PString | PDate | PArray | PObject

fun get_parsed_type :: "jsval \<Rightarrow> parsed_type" where
  "get_parsed_type JUndefined = PUndefined"
| "get_parsed_type JNull = PNull"
| "get_parsed_type (JBool b) = PBoolean"
| "get_parsed_type (JNum n) = PNumber"
| "get_parsed_type JNaN = PNan"
| "get_parsed_type (JStr s) = PString"
| "get_parsed_type (JDate d) = PDate"
| "get_parsed_type (JArr xs) = PArray"
| "get_parsed_type (JObj kvs) = PObject"

text \<open>\<^verbatim>\<open>data[key]\<close>: the property's value, \<^verbatim>\<open>undefined\<close> when there is none.\<close>

fun get_prop :: "(string \<times> jsval) list \<Rightarrow> string \<Rightarrow> jsval" where
  "get_prop [] k = JUndefined"
| "get_prop ((k', v) # kvs) k = (if k' = k then v else get_prop kvs k)"

text \<open>\<^verbatim>\<open>key in data\<close>.\<close>

definition has_prop :: "(string \<times> jsval) list \<Rightarrow> string \<Rightarrow> bool" where
  "has_prop kvs k = (k \<in> set (map fst kvs))"

section \<open>Issues\<close>

datatype seg = Key string | Idx nat

datatype issue_code =
    InvalidType parsed_type parsed_type
  | InvalidString
  | TooSmall nat
  | InvalidEnumValue
  | InvalidDate

text \<open>
  An entry of \<^verbatim>\<open>ZodError.issues\<close>: the path of the offending value, the code of the rule
  violated (for \<open>InvalidType\<close>: expected and received type) and the custom message of the
  check, when the declaration gives one.  Where an enum receives a value that is not a
  string, zod writes the list of the enum's members as the expected type; the issue here
  says \<open>PString\<close>.
\<close>

record issue =
  path :: "seg list"
  code :: issue_code
  message :: "string option"

section \<open>Schemas\<close>

datatype string_check = Uuid | Min nat "string option"

text \<open>
  \<^verbatim>\<open>.default(d)\<close> takes a value or a function; a function is called at each parse that
  needs the default, and may read the clock then.
\<close>

datatype zdefault = DefaultValue jsval | DefaultFn "time \<Rightarrow> jsval"

datatype ztype =
    ZString "string_check list"
  | ZDate
  | ZEnum "string list"
  | ZArray ztype
  | ZObject "(string \<times> ztype) list"
  | ZOptional ztype
  | ZDefault ztype zdefault

fun default_value :: "zdefault \<Rightarrow> time \<Rightarrow> jsval" where
  "default_value (DefaultValue v) now = v"
| "default_value (DefaultFn f) now = f now"

subsection \<open>The uuid check\<close>

text \<open>
  Five groups of 8, 4, 4, 4 and 12 hexadecimal digits, separated by hyphens.
\<close>

definition is_hex :: "char \<Rightarrow> bool" where
  "is_hex c = (c \<in> set ''0123456789abcdefABCDEF'')"

fun take_hex :: "nat \<Rightarrow> string \<Rightarrow> string option" where
  "take_hex 0 s = Some s"
| "take_hex (Suc n) [] = None"
| "take_hex (Suc n) (c # s) = (if is_hex c then take_hex n s else None)"

fun match_groups :: "nat list \<Rightarrow> string \<Rightarrow> bool" where
  "match_groups [] s = False"
| "match_groups [n] s = (take_hex n s = Some [])"
| "match_groups (n # ns) s =
     (case take_hex n s of
        Some (c # r) \<Rightarrow> c = CHR ''-'' \<and> match_groups ns r
      | _ \<Rightarrow> False)"

definition uuid_ok :: "string \<Rightarrow> bool" where
  "uuid_ok s = match_groups [8, 4, 4, 4, 12] s"

subsection \<open>Parsing\<close>

fun run_checks :: "string_check list \<Rightarrow> seg list \<Rightarrow> string \<Rightarrow> issue list" where
  "run_checks [] p s = []"
| "run_checks (Uuid # cs) p s =
     (if uuid_ok s then [] else [\<lparr>path = p, code = InvalidString, message = None\<rparr>])
     @ run_checks cs p s"
| "run_checks (Min n msg # cs) p s =
     (if length s < n then [\<lparr>path = p, code = TooSmall n, message = msg\<rparr>] else [])
     @ run_checks cs p s"

definition invalid_type :: "seg list \<Rightarrow> parsed_type \<Rightarrow> jsval \<Rightarrow> issue list + jsval" where
  "invalid_type p expected v =
     Inl [\<lparr>path = p, code = InvalidType expected (get_parsed_type v), message = None\<rparr>]"

fun issues_of :: "issue list + 'a \<Rightarrow> issue list" where
  "issues_of (Inl e) = e"
| "issues_of (Inr v) = []"

text \<open>
  \<^verbatim>\<open>ParseStatus.mergeArray\<close>: every element has been parsed; the array is valid when each
  element is.
\<close>

definition merge_array :: "(issue list + jsval) list \<Rightarrow> issue list + jsval" where
  "merge_array rs =
     (if list_ex isl rs then Inl (concat (map issues_of rs))
      else Inr (JArr (map projr rs)))"

text \<open>
  \<^verbatim>\<open>ParseStatus.mergeObjectSync\<close> on the pairs (key, result, alwaysSet): a key is written
  to the result when its value is not \<^verbatim>\<open>undefined\<close> or the key was in the input.
\<close>

definition merge_object :: "(string \<times> (issue list + jsval) \<times> bool) list \<Rightarrow> issue list + jsval" where
  "merge_object pairs =
     (if list_ex (\<lambda>(k, r, a). isl r) pairs
      then Inl (concat (map (\<lambda>(k, r, a). issues_of r) pairs))
      else Inr (JObj (map (\<lambda>(k, r, a). (k, projr r))
                       (filter (\<lambda>(k, r, a). projr r \<noteq> JUndefined \<or> a) pairs))))"

fun parse :: "ztype \<Rightarrow> time \<Rightarrow> seg list \<Rightarrow> jsval \<Rightarrow> issue list + jsval" where
  "parse (ZString cs) now p v =
     (case v of
        JStr s \<Rightarrow> (case run_checks cs p s of [] \<Rightarrow> Inr (JStr s) | e # es \<Rightarrow> Inl (e # es))
      | _ \<Rightarrow> invalid_type p PString v)"
| "parse ZDate now p v =
     (case v of
        JDate None \<Rightarrow> Inl [\<lparr>path = p, code = InvalidDate, message = None\<rparr>]
      | JDate (Some t) \<Rightarrow> Inr (JDate (Some t))
      | _ \<Rightarrow> invalid_type p PDate v)"
| "parse (ZEnum vals) now p v =
     (case v of
        JStr s \<Rightarrow> (if s \<in> set vals then Inr (JStr s)
                   else Inl [\<lparr>path = p, code = InvalidEnumValue, message = None\<rparr>])
      | _ \<Rightarrow> invalid_type p PString v)"
| "parse (ZArray s) now p v =
     (case v of
        JArr xs \<Rightarrow> merge_array (map (\<lambda>(i, x). parse s now (p @ [Idx i]) x) (enumerate 0 xs))
      | _ \<Rightarrow> invalid_type p PArray v)"
| "parse (ZObject shape) now p v =
     (case v of
        JObj kvs \<Rightarrow>
          merge_object
            (map (\<lambda>(k, s). (k, parse s now (p @ [Key k]) (get_prop kvs k), has_prop kvs k)) shape)
      | _ \<Rightarrow> invalid_type p PObject v)"
| "parse (ZOptional s) now p v =
     (if v = JUndefined then Inr JUndefined else parse s now p v)"
| "parse (ZDefault s d) now p v =
     parse s now p (if v = JUndefined then default_value d now else v)"

text \<open>
  \<^verbatim>\<open>schema.safeParse(raw)\<close>, called when the clock reads \<open>now\<close>: the validated value, or
  the issues of the \<^verbatim>\<open>ZodError\<close> (\<^verbatim>\<open>schema.parse(raw)\<close> throws the same error).
\<close>

definition safeParse :: "ztype \<Rightarrow> time \<Rightarrow> jsval \<Rightarrow> issue list + jsval" where
  "safeParse schema now raw = parse schema now [] raw"

section \<open>Extension\<close>

text \<open>
  \<^verbatim>\<open>base.extend(augmentation)\<close> builds an object schema of the shape
  \<^verbatim>\<open>{...base.shape, ...augmentation}\<close>: each property of the augmentation is assigned,
  in order, to a copy of the base shape.  Assigning an existing key replaces its value in
  place; a new key goes to the end.  The method exists on object schemas only.
\<close>

fun assign :: "string \<Rightarrow> 'a \<Rightarrow> (string \<times> 'a) list \<Rightarrow> (string \<times> 'a) list" where
  "assign k v [] = [(k, v)]"
| "assign k v ((k', v') # r) = (if k' = k then (k, v) # r else (k', v') # assign k v r)"

definition spread :: "(string \<times> 'a) list \<Rightarrow> (string \<times> 'a) list \<Rightarrow> (string \<times> 'a) list" where
  "spread base aug = fold (\<lambda>(k, v). assign k v) aug base"

fun shape_of :: "ztype \<Rightarrow> (string \<times> ztype) list" where
  "shape_of (ZObject shape) = shape"

fun extend :: "ztype \<Rightarrow> (string \<times> ztype) list \<Rightarrow> ztype" where
  "extend (ZObject shape) aug = ZObject (spread shape aug)"

section \<open>The declared schemas\<close>

text \<open>
  \<^verbatim>\<open>.describe(text)\<close> attaches documentation to a schema and changes nothing in how it
  parses; the declarations are transcribed without it.  A module's top level runs once,
  when the module is loaded: \<^verbatim>\<open>new Date()\<close> in a declaration is the clock reading at
  that moment, which each schema below takes as a parameter.
\<close>

text \<open>record.ts, loaded at \<open>t0\<close>.\<close>

definition RecordSchema :: "time \<Rightarrow> ztype" where
  "RecordSchema t0 = ZObject
     [(''id'', ZString [Uuid]),
      (''createdAt'', ZDefault ZDate (DefaultValue (JDate (Some t0)))),
      (''updatedAt'', ZOptional ZDate)]"

text \<open>productivity.ts.\<close>

definition TagSchema :: "time \<Rightarrow> ztype" where
  "TagSchema t0 = extend (RecordSchema t0)
     [(''name'', ZString [Min 1 (Some ''Tag name is required.'')]),
      (''description'', ZOptional (ZString []))]"

definition ReminderSchema :: ztype where
  "ReminderSchema = ZObject
     [(''reminderDate'', ZDate),
      (''message'', ZOptional (ZString []))]"

definition TaskSchema :: "time \<Rightarrow> ztype" where
  "TaskSchema t0 = extend (RecordSchema t0)
     [(''title'', ZString [Min 1 (Some ''Task title is required.'')]),
      (''description'', ZOptional (ZString [])),
      (''status'', ZEnum [''to-do'', ''in-progress'', ''completed'']),
      (''dueDate'', ZOptional ZDate),
      (''priority'', ZDefault (ZEnum [''low'', ''medium'', ''high'']) (DefaultValue (JStr ''medium''))),
      (''tags'', ZOptional (ZArray (ZString [Uuid]))),
      (''projectId'', ZOptional (ZString [Uuid])),
      (''reminders'', ZOptional (ZArray ReminderSchema)),
      (''dependencies'', ZOptional (ZArray (ZString [Uuid])))]"

text \<open>
  The messaging module, loaded at \<open>t1\<close>: \<^verbatim>\<open>ReactionSchema\<close> declares
  \<^verbatim>\<open>createdAt\<close> again, with a \<^verbatim>\<open>new Date()\<close> of its own.
\<close>

definition ReactionSchema :: "time \<Rightarrow> time \<Rightarrow> ztype" where
  "ReactionSchema t0 t1 = extend (RecordSchema t0)
     [(''messageId'', ZString [Uuid]),
      (''userId'', ZString [Uuid]),
      (''reactionType'', ZString [Min 1 None]),
      (''createdAt'', ZDefault ZDate (DefaultValue (JDate (Some t1))))]"

section \<open>Notions used in the properties\<close>


text \<open>A \<^verbatim>\<open>Date\<close> object with a time value.\<close>

fun valid_timestamp :: "jsval \<Rightarrow> bool" where
  "valid_timestamp (JDate (Some t)) = True"
| "valid_timestamp v = False"

text \<open>\<^verbatim>\<open>v[k]\<close> on a validated value.\<close>

fun field_of :: "jsval \<Rightarrow> string \<Rightarrow> jsval" where
  "field_of (JObj kvs) k = get_prop kvs k"
| "field_of v k = JUndefined"

text \<open>The issues of a nested value, seen from the enclosing one.\<close>

definition prefix_paths :: "seg list \<Rightarrow> issue list \<Rightarrow> issue list" where
  "prefix_paths p = map (\<lambda>i. i\<lparr>path := p @ path i\<rparr>)"

definition relocate :: "seg list \<Rightarrow> issue list + jsval \<Rightarrow> issue list + jsval" where
  "relocate p r = (case r of Inl e \<Rightarrow> Inl (prefix_paths p e) | Inr v \<Rightarrow> Inr v)"

text \<open>
  Every default in the schema is a value, none a function: what the schema substitutes
  is fixed when the schema is built.
\<close>

fun static :: "ztype \<Rightarrow> bool" where
  "static (ZString cs) = True"
| "static ZDate = True"
| "static (ZEnum vals) = True"
| "static (ZArray s) = static s"
| "static (ZObject shape) = list_all (\<lambda>(k, s). static s) shape"
| "static (ZOptional s) = static s"
| "static (ZDefault s (DefaultValue v)) = static s"
| "static (ZDefault s (DefaultFn f)) = False"

text \<open>
  No shape lists a key twice, as holds of every shape written as an object literal or
  built by \<^verbatim>\<open>extend\<close> from such shapes.
\<close>

fun distinct_keys :: "ztype \<Rightarrow> bool" where
  "distinct_keys (ZArray s) = distinct_keys s"
| "distinct_keys (ZObject shape) =
     (distinct (map fst shape) \<and> list_all (\<lambda>(k, s). distinct_keys s) shape)"
| "distinct_keys (ZOptional s) = distinct_keys s"
| "distinct_keys (ZDefault s d) = distinct_keys s"
| "distinct_keys s = True"

text \<open>
  The three fields of the base contract, each declared in \<open>S\<close> as record.ts loaded at
  \<open>t0\<close> declares it.
\<close>

definition includes_record_fields :: "time \<Rightarrow> ztype \<Rightarrow> bool" where
  "includes_record_fields t0 S =
     (map_of (shape_of S) ''id'' = map_of (shape_of (RecordSchema t0)) ''id'' \<and>
      map_of (shape_of S) ''createdAt'' = map_of (shape_of (RecordSchema t0)) ''createdAt'' \<and>
      map_of (shape_of S) ''updatedAt'' = map_of (shape_of (RecordSchema t0)) ''updatedAt'')"

text \<open>A date schema with a \<^verbatim>\<open>Date\<close> value as its default.\<close>

fun defaulted_timestamp :: "ztype \<Rightarrow> bool" where
  "defaulted_timestamp (ZDefault ZDate (DefaultValue (JDate (Some t)))) = True"
| "defaulted_timestamp s = False"

text \<open>
  The contract of the extension scenario, \<^verbatim>\<open>RecordSchema.extend({extraField: z.string()})\<close>:
  the base contract with one more required string field.
\<close>

definition ExtraFieldSchema :: "time \<Rightarrow> ztype" where
  "ExtraFieldSchema t0 = extend (RecordSchema t0) [(''extraField'', ZString [])]"



definition uuid_example :: string where
  "uuid_example = ''123e4567-e89b-12d3-a456-426614174000''"

section \<open>Issue paths\<close>

lemma prefix_paths_simps [simp]:
  "prefix_paths p [] = []"
  "prefix_paths p (i # is) = i\<lparr>path := p @ path i\<rparr> # prefix_paths p is"
  "prefix_paths p (xs @ ys) = prefix_paths p xs @ prefix_paths p ys"
  by (simp_all add: prefix_paths_def)

lemma prefix_paths_concat: "prefix_paths p (concat xss) = concat (map (prefix_paths p) xss)"
  by (simp add: prefix_paths_def map_concat)

lemma relocate_simps [simp]:
  "relocate p (Inl e) = Inl (prefix_paths p e)"
  "relocate p (Inr v) = Inr v"
  "isl (relocate p r) = isl r"
  "issues_of (relocate p r) = prefix_paths p (issues_of r)"
  "\<not> isl r \<Longrightarrow> projr (relocate p r) = projr r"
  by (cases r; simp add: relocate_def)+

lemma run_checks_path: "run_checks cs (p @ q) s = prefix_paths p (run_checks cs q s)"
  by (induction cs q s rule: run_checks.induct) simp_all

lemma merge_array_relocate:
  "merge_array (map (relocate p) rs) = relocate p (merge_array rs)"
  by (simp add: merge_array_def list_ex_iff prefix_paths_concat comp_def)

lemma pairs_relocate_ex:
  "list_ex (\<lambda>(k, r, a). isl r) (map (\<lambda>(k, r, a). (k, relocate p r, a)) pairs)
   = list_ex (\<lambda>(k, r, a). isl r) pairs"
  by (induction pairs) auto

lemma pairs_relocate_issues:
  "concat (map (\<lambda>(k, r, a). issues_of r) (map (\<lambda>(k, r, a). (k, relocate p r, a)) pairs))
   = prefix_paths p (concat (map (\<lambda>(k, r, a). issues_of r) pairs))"
  by (induction pairs) auto

lemma pairs_relocate_values:
  "\<not> list_ex (\<lambda>(k, r, a). isl r) pairs \<Longrightarrow>
   map (\<lambda>(k, r, a). (k, projr r))
     (filter (\<lambda>(k, r, a). projr r \<noteq> JUndefined \<or> a) (map (\<lambda>(k, r, a). (k, relocate p r, a)) pairs))
   = map (\<lambda>(k, r, a). (k, projr r)) (filter (\<lambda>(k, r, a). projr r \<noteq> JUndefined \<or> a) pairs)"
  by (induction pairs) auto

lemma merge_object_relocate:
  "merge_object (map (\<lambda>(k, r, a). (k, relocate p r, a)) pairs) = relocate p (merge_object pairs)"
proof (cases "list_ex (\<lambda>(k, r, a). isl r) pairs")
  case True
  then show ?thesis
    by (simp add: merge_object_def pairs_relocate_ex pairs_relocate_issues del: map_map)
next
  case False
  then show ?thesis
    by (simp only: merge_object_def pairs_relocate_ex pairs_relocate_values [OF False]
        if_False relocate_simps)
qed

lemma parse_path: "parse s now (p @ q) v = relocate p (parse s now q v)"
proof (induction s arbitrary: p q v)
  case (ZString cs)
  show ?case
    by (cases v) (simp_all add: invalid_type_def run_checks_path split: list.splits)
next
  case ZDate
  show ?case by (cases v) (simp_all add: invalid_type_def split: option.splits)
next
  case (ZEnum vals)
  show ?case by (cases v) (simp_all add: invalid_type_def)
next
  case (ZArray s)
  show ?case
  proof (cases v)
    case (JArr xs)
    have "map (\<lambda>(i, x). parse s now ((p @ q) @ [Idx i]) x) (enumerate 0 xs)
        = map (relocate p) (map (\<lambda>(i, x). parse s now (q @ [Idx i]) x) (enumerate 0 xs))"
      using ZArray.IH by (simp add: case_prod_beta)
    then show ?thesis using JArr by (simp only: parse.simps jsval.case merge_array_relocate)
  qed (simp_all add: invalid_type_def)
next
  case (ZObject shape)
  show ?case
  proof (cases v)
    case (JObj kvs)
    have "map (\<lambda>(k, s). (k, parse s now ((p @ q) @ [Key k]) (get_prop kvs k), has_prop kvs k)) shape
        = map (\<lambda>(k, r, a). (k, relocate p r, a))
            (map (\<lambda>(k, s). (k, parse s now (q @ [Key k]) (get_prop kvs k), has_prop kvs k)) shape)"
      using ZObject.IH by (auto simp: case_prod_beta)
    then show ?thesis using JObj by (simp only: parse.simps jsval.case merge_object_relocate)
  qed (simp_all add: invalid_type_def)
next
  case (ZOptional s)
  then show ?case by simp
next
  case (ZDefault s d)
  then show ?case by simp
qed

section \<open>Merging field results\<close>

lemma merge_object_isl: "isl (merge_object pairs) = (\<exists>(k, r, a) \<in> set pairs. isl r)"
  by (simp add: merge_object_def list_ex_iff)

lemma issues_of_valid: "\<not> isl r \<Longrightarrow> issues_of r = []"
  by (cases r) simp_all

lemma pairs_valid_no_issues:
  "\<not> list_ex (\<lambda>(k, r, a). isl r) pairs \<Longrightarrow> concat (map (\<lambda>(k, r, a). issues_of r) pairs) = []"
  by (induction pairs) (auto simp: issues_of_valid)

lemma merge_object_issues:
  "issues_of (merge_object pairs) = concat (map (\<lambda>(k, r, a). issues_of r) pairs)"
  by (simp add: merge_object_def pairs_valid_no_issues)

lemma result_cases: "r = Inl (issues_of r) \<or> (\<exists>v. r = Inr v)"
  by (cases r) simp_all

lemma isl_issues: "isl r \<Longrightarrow> r = Inl (issues_of r)"
  by (cases r) simp_all

lemma uuid_example_ok: "uuid_ok uuid_example"
  by (simp add: uuid_example_def uuid_ok_def is_hex_def eval_nat_numeral)

section \<open>The base contract\<close>

text \<open>
  C7: for every string \<open>u\<close> that passes the uuid check and every timestamp \<open>t\<close>,
  validating \<^verbatim>\<open>{id: u, createdAt: t}\<close> against the base contract succeeds, and the
  validated value has \<^verbatim>\<open>id\<close> equal to \<open>u\<close>.
\<close>

theorem C7: 
  assumes "uuid_ok u"
  shows "\<exists>v. safeParse (RecordSchema t0) now (JObj [(''id'', JStr u), (''createdAt'', JDate (Some t))]) = Inr v
      \<and> field_of v ''id'' = JStr u"
  using assms by (simp add: safeParse_def RecordSchema_def merge_object_def has_prop_def)

theorem C7_witness:
  "\<exists>v. safeParse (RecordSchema 0) 5 (JObj [(''id'', JStr uuid_example), (''createdAt'', JDate (Some 3))]) = Inr v
      \<and> field_of v ''id'' = JStr uuid_example"
  using C7 [OF uuid_example_ok] by simp

text \<open>
  C5: validating an object without a value for \<^verbatim>\<open>id\<close> against the base contract
  fails, and the error holds the issue "required" at path \<^verbatim>\<open>id\<close>; for the empty
  object that issue is the only one.
\<close>

theorem C5:
  "(get_prop kvs ''id'' = JUndefined \<longrightarrow>
      (\<exists>issues. safeParse (RecordSchema t0) now (JObj kvs) = Inl issues
         \<and> \<lparr>path = [Key ''id''], code = InvalidType PString PUndefined, message = None\<rparr> \<in> set issues))
   \<and> safeParse (RecordSchema t0) now (JObj []) =
         Inl [\<lparr>path = [Key ''id''], code = InvalidType PString PUndefined, message = None\<rparr>]"
proof (intro conjI impI)
  assume a: "get_prop kvs ''id'' = JUndefined"
  let ?r = "safeParse (RecordSchema t0) now (JObj kvs)"
  let ?i = "\<lparr>path = [Key ''id''], code = InvalidType PString PUndefined, message = None\<rparr>"
  have "isl ?r" using a
    by (simp add: safeParse_def RecordSchema_def merge_object_isl invalid_type_def)
  then have "?r = Inl (issues_of ?r)" by (rule isl_issues)
  moreover have "?i \<in> set (issues_of ?r)"
    using a
    by (simp add: safeParse_def RecordSchema_def merge_object_issues invalid_type_def)
  ultimately show "\<exists>issues. ?r = Inl issues \<and> ?i \<in> set issues"
    by blast
next
  show "safeParse (RecordSchema t0) now (JObj []) =
           Inl [\<lparr>path = [Key ''id''], code = InvalidType PString PUndefined, message = None\<rparr>]"
    by (simp add: safeParse_def RecordSchema_def merge_object_def has_prop_def invalid_type_def)
qed

theorem C5_witness:
  "get_prop [(''updatedAt'', JNull)] ''id'' = JUndefined \<and>
   (\<exists>issues. safeParse (RecordSchema 0) 5 (JObj [(''updatedAt'', JNull)]) = Inl issues
         \<and> \<lparr>path = [Key ''id''], code = InvalidType PString PUndefined, message = None\<rparr> \<in> set issues)"
  using C5 [of "[(''updatedAt'', JNull)]" 0 5] by simp

section \<open>Clock independence and shapes built by extension\<close>

lemma static_parse: "static s \<Longrightarrow> parse s now p v = parse s now' p v"
proof (induction s arbitrary: p v)
  case (ZArray s)
  show ?case
  proof (cases v)
    case (JArr xs)
    have "map (\<lambda>(i, x). parse s now (p @ [Idx i]) x) (enumerate 0 xs)
        = map (\<lambda>(i, x). parse s now' (p @ [Idx i]) x) (enumerate 0 xs)"
      using ZArray by (intro map_cong refl) auto
    then show ?thesis using JArr by (simp only: parse.simps jsval.case)
  qed simp_all
next
  case (ZObject shape)
  show ?case
  proof (cases v)
    case (JObj kvs)
    have "map (\<lambda>(k, s). (k, parse s now (p @ [Key k]) (get_prop kvs k), has_prop kvs k)) shape
        = map (\<lambda>(k, s). (k, parse s now' (p @ [Key k]) (get_prop kvs k), has_prop kvs k)) shape"
      using ZObject by (intro map_cong refl) (auto simp: list_all_iff)
    then show ?thesis using JObj by (simp only: parse.simps jsval.case)
  qed simp_all
next
  case (ZDefault s d)
  then show ?case by (cases d) simp_all
qed simp_all

lemma map_of_assign: "map_of (assign k v xs) = (map_of xs)(k \<mapsto> v)"
  by (induction xs) (auto simp: fun_eq_iff)

lemma keys_assign:
  "map fst (assign k v xs) = (if k \<in> set (map fst xs) then map fst xs else map fst xs @ [k])"
  by (induction xs) (force split: if_splits)+

lemma distinct_assign: "distinct (map fst xs) \<Longrightarrow> distinct (map fst (assign k v xs))"
  by (simp add: keys_assign)

lemma map_of_spread: "map_of (spread base aug) = map_of base ++ map_of (rev aug)"
  unfolding spread_def
  by (induction aug arbitrary: base) (auto simp: map_of_assign map_add_def fun_eq_iff split: option.splits)

lemma keys_spread: "set (map fst (spread base aug)) = set (map fst base) \<union> set (map fst aug)"
  unfolding spread_def
proof (induction aug arbitrary: base)
  case Nil
  show ?case by simp
next
  case (Cons x aug)
  obtain k v where x: "x = (k, v)" by (cases x)
  have "set (map fst (assign k v base)) = insert k (set (map fst base))"
    by (simp only: keys_assign) (simp add: insert_absorb)
  then show ?case using Cons [of "assign k v base"] by (simp add: x)
qed

lemma distinct_spread: "distinct (map fst base) \<Longrightarrow> distinct (map fst (spread base aug))"
  unfolding spread_def
  by (induction aug arbitrary: base) (auto simp: distinct_assign)

lemma map_of_rev_distinct: "distinct (map fst xs) \<Longrightarrow> map_of (rev xs) = map_of xs"
  by (rule map_of_inject_set[THEN iffD2]) (simp_all add: rev_map[symmetric])

section \<open>Timestamps of the base contract\<close>

lemma valid_result: "\<not> isl r \<Longrightarrow> \<exists>v. r = Inr v"
  by (cases r) simp_all

text \<open>
  C1: with record.ts loaded at time 0, validating \<^verbatim>\<open>{id: u}\<close> against the base
  contract when the clock reads 5 succeeds, and the validated \<^verbatim>\<open>createdAt\<close> is the
  \<^verbatim>\<open>Date\<close> of time 0 built when the module was loaded, not the reading 5 of the
  validation call.
\<close>

theorem C1_default_is_load_time:
  "safeParse (RecordSchema 0) 5 (JObj [(''id'', JStr uuid_example)])
   = Inr (JObj [(''id'', JStr uuid_example), (''createdAt'', JDate (Some 0))])"
  using uuid_example_ok
  by (simp add: safeParse_def RecordSchema_def merge_object_def has_prop_def)

lemma optional_date_invalid:
  "v \<noteq> JUndefined \<Longrightarrow> \<not> valid_timestamp v \<Longrightarrow>
   \<exists>c. parse (ZOptional ZDate) now p v = Inl [\<lparr>path = p, code = c, message = None\<rparr>]"
  by (cases v rule: valid_timestamp.cases) (simp_all add: invalid_type_def)

lemma parse_object:
  "parse (ZObject shape) now p (JObj kvs) =
     merge_object (map (\<lambda>(k, s). (k, parse s now (p @ [Key k]) (get_prop kvs k), has_prop kvs k)) shape)"
  by simp

lemma defaulted_date_valid:
  "v = JUndefined \<or> valid_timestamp v \<Longrightarrow>
   \<exists>w. parse (ZDefault ZDate (DefaultValue (JDate (Some t0)))) now p v = Inr w"
  by (cases v rule: valid_timestamp.cases) simp_all

lemma date_valid: "valid_timestamp v \<Longrightarrow> parse ZDate now p v = Inr v"
  by (cases v rule: valid_timestamp.cases) simp_all

text \<open>
  C6: when \<^verbatim>\<open>updatedAt\<close> holds a value other than \<^verbatim>\<open>undefined\<close> that is not a
  \<^verbatim>\<open>Date\<close> with a time value, validation against the base contract fails with an
  issue at path \<^verbatim>\<open>updatedAt\<close>; when \<^verbatim>\<open>updatedAt\<close> has no value and the other two
  fields are acceptable, validation succeeds.
\<close>

theorem C6:
  "(get_prop kvs ''updatedAt'' \<noteq> JUndefined \<and> \<not> valid_timestamp (get_prop kvs ''updatedAt'') \<longrightarrow>
      (\<exists>issues. safeParse (RecordSchema t0) now (JObj kvs) = Inl issues
         \<and> (\<exists>i \<in> set issues. path i = [Key ''updatedAt''])))
   \<and> (get_prop kvs ''updatedAt'' = JUndefined \<and> get_prop kvs ''id'' = JStr u \<and> uuid_ok u
        \<and> (get_prop kvs ''createdAt'' = JUndefined \<or> valid_timestamp (get_prop kvs ''createdAt'')) \<longrightarrow>
      (\<exists>v. safeParse (RecordSchema t0) now (JObj kvs) = Inr v))"
proof (intro conjI impI)
  assume a: "get_prop kvs ''updatedAt'' \<noteq> JUndefined \<and> \<not> valid_timestamp (get_prop kvs ''updatedAt'')"
  let ?r = "safeParse (RecordSchema t0) now (JObj kvs)"
  obtain c where c: "parse (ZOptional ZDate) now [Key ''updatedAt''] (get_prop kvs ''updatedAt'')
      = Inl [\<lparr>path = [Key ''updatedAt''], code = c, message = None\<rparr>]"
    using optional_date_invalid a by blast
  have "isl ?r"
    using c by (simp add: safeParse_def RecordSchema_def parse_object merge_object_isl del: parse.simps)
  then have "?r = Inl (issues_of ?r)" by (rule isl_issues)
  moreover have "\<lparr>path = [Key ''updatedAt''], code = c, message = None\<rparr> \<in> set (issues_of ?r)"
    using c by (simp add: safeParse_def RecordSchema_def parse_object merge_object_issues del: parse.simps)
  ultimately show "\<exists>issues. ?r = Inl issues \<and> (\<exists>i \<in> set issues. path i = [Key ''updatedAt''])"
    by (metis issue.select_convs(1))
next
  assume a: "get_prop kvs ''updatedAt'' = JUndefined \<and> get_prop kvs ''id'' = JStr u \<and> uuid_ok u
        \<and> (get_prop kvs ''createdAt'' = JUndefined \<or> valid_timestamp (get_prop kvs ''createdAt''))"
  obtain w where w: "parse (ZDefault ZDate (DefaultValue (JDate (Some t0)))) now [Key ''createdAt'']
      (get_prop kvs ''createdAt'') = Inr w"
    using defaulted_date_valid a by blast
  have i: "parse (ZString [Uuid]) now [Key ''id''] (get_prop kvs ''id'') = Inr (JStr u)"
    using a by simp
  have o: "parse (ZOptional ZDate) now [Key ''updatedAt''] (get_prop kvs ''updatedAt'') = Inr JUndefined"
    using a by simp
  have "\<not> isl (safeParse (RecordSchema t0) now (JObj kvs))"
    using w i o
    by (simp add: safeParse_def RecordSchema_def parse_object merge_object_isl del: parse.simps)
  then show "\<exists>v. safeParse (RecordSchema t0) now (JObj kvs) = Inr v"
    by (rule valid_result)
qed

theorem C6_witness:
  "(\<exists>issues. safeParse (RecordSchema 0) 5
        (JObj [(''id'', JStr uuid_example), (''updatedAt'', JStr ''yesterday'')]) = Inl issues
         \<and> (\<exists>i \<in> set issues. path i = [Key ''updatedAt'']))
   \<and> (\<exists>v. safeParse (RecordSchema 0) 5 (JObj [(''id'', JStr uuid_example)]) = Inr v)"
  using C6 [where kvs = "[(''id'', JStr uuid_example), (''updatedAt'', JStr ''yesterday'')]"
              and ?t0.0 = 0 and now = 5]
        C6 [where kvs = "[(''id'', JStr uuid_example)]" and u = uuid_example and ?t0.0 = 0 and now = 5]
        uuid_example_ok
  by simp

lemma static_declared:
  "static (RecordSchema t0)" "static (TagSchema t0)" "static (TaskSchema t0)"
  "static (ReactionSchema t0 t1)" "static ReminderSchema" "static (ExtraFieldSchema t0)"
  by (simp_all add: RecordSchema_def TagSchema_def TaskSchema_def ReactionSchema_def
      ReminderSchema_def ExtraFieldSchema_def spread_def)

text \<open>
  C10: validation against a declared contract does not depend on the clock reading at the
  call: two calls on the same input, at any two times, return the same result.  An input
  without \<^verbatim>\<open>createdAt\<close> that validates against the base contract gets the
  \<^verbatim>\<open>Date\<close> built when record.ts was loaded.
\<close>

theorem C10:
  "(static c \<or> c \<in> set [RecordSchema t0, TagSchema t0, TaskSchema t0, ReactionSchema t0 t1,
                           ReminderSchema, ExtraFieldSchema t0] \<longrightarrow>
      safeParse c now raw = safeParse c later raw)
   \<and> (get_prop kvs ''createdAt'' = JUndefined \<and> safeParse (RecordSchema t0) now (JObj kvs) = Inr v \<longrightarrow>
      field_of v ''createdAt'' = JDate (Some t0))"
proof (intro conjI impI)
  assume "static c \<or> c \<in> set [RecordSchema t0, TagSchema t0, TaskSchema t0, ReactionSchema t0 t1,
                           ReminderSchema, ExtraFieldSchema t0]"
  then have "static c" using static_declared by auto
  then show "safeParse c now raw = safeParse c later raw"
    unfolding safeParse_def by (rule static_parse)
next
  assume a: "get_prop kvs ''createdAt'' = JUndefined \<and> safeParse (RecordSchema t0) now (JObj kvs) = Inr v"
  then show "field_of v ''createdAt'' = JDate (Some t0)"
    by (auto simp: safeParse_def RecordSchema_def merge_object_def split: if_splits)
qed

theorem C10_witness:
  "safeParse (RecordSchema 0) 1 (JObj [(''id'', JStr uuid_example)])
     = safeParse (RecordSchema 0) 2 (JObj [(''id'', JStr uuid_example)])
   \<and> field_of (JObj [(''id'', JStr uuid_example), (''createdAt'', JDate (Some 0))]) ''createdAt''
       = JDate (Some 0)"
proof -
  have r: "safeParse (RecordSchema 0) 1 (JObj [(''id'', JStr uuid_example)])
           = Inr (JObj [(''id'', JStr uuid_example), (''createdAt'', JDate (Some 0))])"
    using uuid_example_ok
    by (simp add: safeParse_def RecordSchema_def merge_object_def has_prop_def)
  show ?thesis
    using C10 [where c = "RecordSchema 0" and ?t0.0 = 0 and now = 1 and later = 2
                 and raw = "JObj [(''id'', JStr uuid_example)]"
                 and kvs = "[(''id'', JStr uuid_example)]"
                 and v = "JObj [(''id'', JStr uuid_example), (''createdAt'', JDate (Some 0))]"] r
    by simp
qed

section \<open>Fields of a validated object\<close>

lemma get_prop_absent: "k \<notin> set (map fst kvs) \<Longrightarrow> get_prop kvs k = JUndefined"
  by (induction kvs) auto

lemma kept_absent:
  "k \<notin> set (map fst pairs) \<Longrightarrow>
   k \<notin> set (map fst (map (\<lambda>(k, r, a). (k, projr r)) (filter P pairs)))"
  by (induction pairs) auto

lemma kept_lookup:
  "distinct (map fst pairs) \<Longrightarrow> (k, r, a) \<in> set pairs \<Longrightarrow>
   get_prop (map (\<lambda>(k, r, a). (k, projr r))
              (filter (\<lambda>(k, r, a). projr r \<noteq> JUndefined \<or> a) pairs)) k = projr r"
proof (induction pairs)
  case Nil
  then show ?case by simp
next
  case (Cons x pairs)
  obtain k' r' a' where x: "x = (k', r', a')" by (cases x)
  show ?case
  proof (cases "k' = k")
    case True
    then have k: "k \<notin> set (map fst pairs)" using Cons.prems(1) x by simp
    then have "(k, r, a) \<notin> set pairs" by force
    then have r: "r' = r" "a' = a" using Cons.prems(2) x True by auto
    have "k \<notin> set (map fst (map (\<lambda>(k, r, a). (k, projr r))
              (filter (\<lambda>(k, r, a). projr r \<noteq> JUndefined \<or> a) pairs)))"
      using k by (rule kept_absent)
    then have "get_prop (map (\<lambda>(k, r, a). (k, projr r))
              (filter (\<lambda>(k, r, a). projr r \<noteq> JUndefined \<or> a) pairs)) k = JUndefined"
      by (rule get_prop_absent)
    then show ?thesis using x True r by auto
  next
    case False
    then have "(k, r, a) \<in> set pairs" using Cons.prems(2) x by auto
    moreover have "distinct (map fst pairs)" using Cons.prems(1) by simp
    ultimately show ?thesis using Cons.IH x False by auto
  qed
qed

lemma kept_has:
  "distinct (map fst pairs) \<Longrightarrow> (k, r, a) \<in> set pairs \<Longrightarrow>
   has_prop (map (\<lambda>(k, r, a). (k, projr r))
              (filter (\<lambda>(k, r, a). projr r \<noteq> JUndefined \<or> a) pairs)) k
   = (projr r \<noteq> JUndefined \<or> a)"
proof (induction pairs)
  case Nil
  then show ?case by simp
next
  case (Cons x pairs)
  obtain k' r' a' where x: "x = (k', r', a')" by (cases x)
  show ?case
  proof (cases "k' = k")
    case True
    then have k: "k \<notin> set (map fst pairs)" using Cons.prems(1) x by simp
    then have "(k, r, a) \<notin> set pairs" by force
    then have r: "r' = r" "a' = a" using Cons.prems(2) x True by auto
    have "k \<notin> set (map fst (map (\<lambda>(k, r, a). (k, projr r))
              (filter (\<lambda>(k, r, a). projr r \<noteq> JUndefined \<or> a) pairs)))"
      using k by (rule kept_absent)
    then show ?thesis using x True r by (auto simp: has_prop_def)
  next
    case False
    then have "(k, r, a) \<in> set pairs" using Cons.prems(2) x by auto
    moreover have "distinct (map fst pairs)" using Cons.prems(1) by simp
    ultimately show ?thesis using Cons.IH x False by (auto simp: has_prop_def)
  qed
qed

lemma merge_object_valid:
  "merge_object pairs = Inr out \<Longrightarrow>
   (\<forall>(k, r, a) \<in> set pairs. \<not> isl r) \<and>
   out = JObj (map (\<lambda>(k, r, a). (k, projr r))
                (filter (\<lambda>(k, r, a). projr r \<noteq> JUndefined \<or> a) pairs))"
  by (auto simp: merge_object_def list_ex_iff split: if_splits)

lemma field_pairs_keys:
  "map fst (map (\<lambda>(k, s). (k, f k s, g k)) shape) = map fst shape"
  by (induction shape) auto

lemma object_field:
  assumes "distinct (map fst shape)"
    and "parse (ZObject shape) now p (JObj kvs) = Inr out"
    and "(k, s) \<in> set shape"
  shows "parse s now (p @ [Key k]) (get_prop kvs k) = Inr (field_of out k)"
proof -
  let ?pairs = "map (\<lambda>(k, s). (k, parse s now (p @ [Key k]) (get_prop kvs k), has_prop kvs k)) shape"
  let ?r = "parse s now (p @ [Key k]) (get_prop kvs k)"
  have m: "merge_object ?pairs = Inr out" using assms(2) by (simp only: parse_object)
  have mem: "(k, ?r, has_prop kvs k) \<in> set ?pairs" using assms(3) by force
  have d: "distinct (map fst ?pairs)" using assms(1) by (simp only: field_pairs_keys)
  from merge_object_valid [OF m] have v: "\<not> isl ?r"
    and out: "out = JObj (map (\<lambda>(k, r, a). (k, projr r))
                (filter (\<lambda>(k, r, a). projr r \<noteq> JUndefined \<or> a) ?pairs))"
    using mem by blast+
  have "field_of out k = projr ?r"
    unfolding out field_of.simps by (rule kept_lookup [OF d mem])
  then show ?thesis using v by (cases ?r) simp_all
qed

lemma object_field_fails:
  assumes "(k, s) \<in> set shape" and "isl (parse s now (p @ [Key k]) (get_prop kvs k))"
  shows "isl (parse (ZObject shape) now p (JObj kvs))"
  using assms by (simp only: parse_object merge_object_isl) force

section \<open>Extension and shadowing\<close>

lemma parse_path_nil: "parse s now p v = relocate p (parse s now [] v)"
  using parse_path [of s now p "[]" v] by simp

lemma parse_valid_path: "parse s now p v = Inr w \<longleftrightarrow> parse s now q v = Inr w"
proof -
  have "\<And>p. parse s now p v = Inr w \<longleftrightarrow> parse s now [] v = Inr w"
    by (subst parse_path_nil) (cases "parse s now [] v"; simp)
  then show ?thesis by blast
qed

lemma parse_isl_path: "isl (parse s now p v) = isl (parse s now q v)"
  by (metis parse_path_nil relocate_simps(3))

lemma map_of_extend:
  assumes "distinct (map fst aug)"
  shows "map_of (shape_of (extend (ZObject base) aug)) k =
           (case map_of aug k of Some d \<Rightarrow> Some d | None \<Rightarrow> map_of base k)"
  using assms
  by (simp add: map_of_spread map_of_rev_distinct map_add_def split: option.splits)

text \<open>
  C8: the shape of \<^verbatim>\<open>base.extend(aug)\<close> has the keys of both shapes, each once; a key
  of the augmentation carries the augmentation's definition, any other key the base's.
  Validation against the combined contract treats a redefined field by the augmentation's
  definition: a validated object holds at that key what the augmentation's definition
  returns for the input's value, and the object is rejected when that definition rejects
  the value.
\<close>

theorem C8:
  assumes "distinct (map fst base)" and "distinct (map fst aug)"
  shows "map_of (shape_of (extend (ZObject base) aug)) k =
           (case map_of aug k of Some d \<Rightarrow> Some d | None \<Rightarrow> map_of base k)
       \<and> set (map fst (shape_of (extend (ZObject base) aug))) = set (map fst base) \<union> set (map fst aug)
       \<and> distinct (map fst (shape_of (extend (ZObject base) aug)))
       \<and> (map_of aug k = Some d \<and> safeParse (extend (ZObject base) aug) now (JObj kvs) = Inr out \<longrightarrow>
            safeParse d now (get_prop kvs k) = Inr (field_of out k))
       \<and> (map_of aug k = Some d \<and> isl (safeParse d now (get_prop kvs k)) \<longrightarrow>
            isl (safeParse (extend (ZObject base) aug) now (JObj kvs)))"
proof (intro conjI impI)
  show m: "map_of (shape_of (extend (ZObject base) aug)) k =
           (case map_of aug k of Some d \<Rightarrow> Some d | None \<Rightarrow> map_of base k)"
    using assms(2) by (rule map_of_extend)
  show "set (map fst (shape_of (extend (ZObject base) aug))) = set (map fst base) \<union> set (map fst aug)"
    by (simp only: extend.simps shape_of.simps keys_spread)
  show d: "distinct (map fst (shape_of (extend (ZObject base) aug)))"
    using assms(1) by (simp only: extend.simps shape_of.simps distinct_spread)
  {
    assume a: "map_of aug k = Some d \<and> safeParse (extend (ZObject base) aug) now (JObj kvs) = Inr out"
    then have "map_of (spread base aug) k = Some d" using m by simp
    then have mem: "(k, d) \<in> set (spread base aug)" by (rule map_of_SomeD)
    have "parse d now ([] @ [Key k]) (get_prop kvs k) = Inr (field_of out k)"
      using d a mem by (intro object_field [where shape = "spread base aug"]) (simp_all add: safeParse_def)
    then show "safeParse d now (get_prop kvs k) = Inr (field_of out k)"
      unfolding safeParse_def using parse_valid_path by blast
  }
  {
    assume a: "map_of aug k = Some d \<and> isl (safeParse d now (get_prop kvs k))"
    then have "map_of (spread base aug) k = Some d" using m by simp
    then have mem: "(k, d) \<in> set (spread base aug)" by (rule map_of_SomeD)
    have "isl (parse d now ([] @ [Key k]) (get_prop kvs k))"
      using a parse_isl_path unfolding safeParse_def by blast
    then have "isl (parse (ZObject (spread base aug)) now [] (JObj kvs))"
      using mem by (intro object_field_fails [where k = k and s = d])
    then show "isl (safeParse (extend (ZObject base) aug) now (JObj kvs))"
      by (simp only: safeParse_def extend.simps)
  }
qed

lemma reaction_example:
  "safeParse (ReactionSchema 0 1) 5
     (JObj [(''id'', JStr uuid_example), (''messageId'', JStr uuid_example),
            (''userId'', JStr uuid_example), (''reactionType'', JStr ''like'')])
   = Inr (JObj [(''id'', JStr uuid_example), (''createdAt'', JDate (Some 1)),
            (''messageId'', JStr uuid_example), (''userId'', JStr uuid_example),
            (''reactionType'', JStr ''like'')])"
  using uuid_example_ok
  by (simp add: safeParse_def ReactionSchema_def RecordSchema_def spread_def merge_object_def
      has_prop_def)

theorem C8_witness:
  "map_of (shape_of (ReactionSchema 0 1)) ''createdAt''
     = Some (ZDefault ZDate (DefaultValue (JDate (Some 1))))
   \<and> safeParse (ZDefault ZDate (DefaultValue (JDate (Some 1)))) 5 JUndefined = Inr (JDate (Some 1))
   \<and> isl (safeParse (ReactionSchema 0 1) 5 (JObj [(''createdAt'', JStr ''today'')]))"
  using C8 [where base = "shape_of (RecordSchema 0)"
              and aug = "[(''messageId'', ZString [Uuid]), (''userId'', ZString [Uuid]),
                          (''reactionType'', ZString [Min 1 None]),
                          (''createdAt'', ZDefault ZDate (DefaultValue (JDate (Some 1))))]"
              and k = "''createdAt''" and d = "ZDefault ZDate (DefaultValue (JDate (Some 1)))"
              and now = 5
              and kvs = "[(''id'', JStr uuid_example), (''messageId'', JStr uuid_example),
                          (''userId'', JStr uuid_example), (''reactionType'', JStr ''like'')]"
              and out = "JObj [(''id'', JStr uuid_example), (''createdAt'', JDate (Some 1)),
                          (''messageId'', JStr uuid_example), (''userId'', JStr uuid_example),
                          (''reactionType'', JStr ''like'')]"]
        C8 [where base = "shape_of (RecordSchema 0)"
              and aug = "[(''messageId'', ZString [Uuid]), (''userId'', ZString [Uuid]),
                          (''reactionType'', ZString [Min 1 None]),
                          (''createdAt'', ZDefault ZDate (DefaultValue (JDate (Some 1))))]"
              and k = "''createdAt''" and d = "ZDefault ZDate (DefaultValue (JDate (Some 1)))"
              and now = 5 and kvs = "[(''createdAt'', JStr ''today'')]"]
        reaction_example
  by (simp add: ReactionSchema_def RecordSchema_def safeParse_def invalid_type_def)

section \<open>Which schemas carry the base fields\<close>











section \<open>Every violating field is reported\<close>












section \<open>Validated values validate again\<close>

lemma parse_undefined: "parse s now p v = Inr JUndefined \<Longrightarrow> v = JUndefined"
proof (induction s arbitrary: p v)
  case (ZString cs)
  then show ?case by (cases v) (simp_all add: invalid_type_def split: list.splits)
next
  case ZDate
  then show ?case by (cases v) (simp_all add: invalid_type_def split: option.splits)
next
  case (ZEnum vals)
  then show ?case by (cases v) (simp_all add: invalid_type_def split: if_splits)
next
  case (ZArray s)
  then show ?case by (cases v) (simp_all add: invalid_type_def merge_array_def split: if_splits)
next
  case (ZObject shape)
  then show ?case by (cases v) (simp_all add: invalid_type_def merge_object_def split: if_splits)
next
  case (ZOptional s)
  then show ?case by (cases "v = JUndefined") simp_all
next
  case (ZDefault s d)
  then show ?case by (cases "v = JUndefined") simp_all
qed

lemma merge_array_valid:
  "merge_array rs = Inr w \<Longrightarrow> (\<forall>r \<in> set rs. \<not> isl r) \<and> w = JArr (map projr rs)"
  by (auto simp: merge_array_def list_ex_iff split: if_splits)

lemma merge_array_Inr: "merge_array (map Inr ws) = Inr (JArr ws)"
  by (simp add: merge_array_def list_ex_iff comp_def)

lemma map_enumerate_each:
  "(\<And>i x. x \<in> set xs \<Longrightarrow> f i x = g x) \<Longrightarrow> map (\<lambda>(i, x). f i x) (enumerate n xs) = map g xs"
  by (induction xs arbitrary: n) simp_all

lemma kept_same:
  "map (\<lambda>(k, r, a). (k, projr r))
     (filter (\<lambda>(k, r, a). projr r \<noteq> JUndefined \<or> a)
       (map (\<lambda>(k, s). (k, Inr (W k), W k \<noteq> JUndefined \<or> A k)) shape))
   = map (\<lambda>(k, r, a). (k, projr r))
     (filter (\<lambda>(k, r, a). projr r \<noteq> JUndefined \<or> a)
       (map (\<lambda>(k, s). (k, Inr (W k), A k)) shape))"
  by (induction shape) auto

lemma merge_object_Inr:
  "\<not> list_ex (\<lambda>(k, r, a). isl r) pairs \<Longrightarrow>
   merge_object pairs = Inr (JObj (map (\<lambda>(k, r, a). (k, projr r))
       (filter (\<lambda>(k, r, a). projr r \<noteq> JUndefined \<or> a) pairs)))"
  by (simp only: merge_object_def if_False)

lemma valid_pairs: "\<not> list_ex (\<lambda>(k, r, a). isl r) (map (\<lambda>(k, s). (k, Inr (W k), B k)) shape)"
  by (induction shape) auto

lemma parse_idempotent:
  "static s \<Longrightarrow> distinct_keys s \<Longrightarrow> parse s now p v = Inr w \<Longrightarrow> parse s later q w = Inr w"
proof (induction s arbitrary: p q v w)
  case (ZString cs)
  from ZString(3) have "w = v"
    by (cases v) (simp_all add: invalid_type_def split: list.splits)
  moreover have "parse (ZString cs) later p v = Inr w"
    using ZString(3) static_parse [of "ZString cs" now p v later] by simp
  ultimately show ?case using parse_valid_path by blast
next
  case ZDate
  then show ?case by (cases v) (auto simp: invalid_type_def split: option.splits)
next
  case (ZEnum vals)
  then show ?case by (cases v) (auto simp: invalid_type_def split: if_splits)
next
  case (ZArray s)
  show ?case
  proof (cases v)
    case (JArr xs)
    let ?rs = "map (\<lambda>(i, x). parse s now (p @ [Idx i]) x) (enumerate 0 xs)"
    have m: "merge_array ?rs = Inr w" using ZArray.prems(3) JArr by simp
    from merge_array_valid [OF m] have ok: "\<forall>r \<in> set ?rs. \<not> isl r"
      and w: "w = JArr (map projr ?rs)" by blast+
    have each: "parse s later q' x = Inr x" if "x \<in> set (map projr ?rs)" for x q'
    proof -
      from that obtain i y where "(i, y) \<in> set (enumerate 0 xs)"
        and x: "x = projr (parse s now (p @ [Idx i]) y)" by auto
      moreover have "\<not> isl (parse s now (p @ [Idx i]) y)" using ok calculation(1) by force
      ultimately have "parse s now (p @ [Idx i]) y = Inr x"
        by (cases "parse s now (p @ [Idx i]) y") simp_all
      then show ?thesis using ZArray.IH ZArray.prems(1,2) by simp
    qed
    have "map (\<lambda>(i, x). parse s later (q @ [Idx i]) x) (enumerate 0 (map projr ?rs))
        = map Inr (map projr ?rs)"
      using each by (intro map_enumerate_each) blast
    then have "merge_array (map (\<lambda>(i, x). parse s later (q @ [Idx i]) x)
        (enumerate 0 (map projr ?rs))) = Inr (JArr (map projr ?rs))"
      by (simp only: merge_array_Inr)
    then show ?thesis unfolding w by (simp only: parse.simps jsval.case)
  next
  qed (use ZArray.prems(3) in \<open>simp_all add: invalid_type_def\<close>)
next
  case (ZObject shape)
  show ?case
  proof (cases v)
    case (JObj kvs)
    let ?pairs = "map (\<lambda>(k, s). (k, parse s now (p @ [Key k]) (get_prop kvs k), has_prop kvs k)) shape"
    have d: "distinct (map fst shape)" using ZObject.prems(2) by simp
    have po: "parse (ZObject shape) now p (JObj kvs) = Inr w" using ZObject.prems(3) JObj by simp
    then have m: "merge_object ?pairs = Inr w" by (simp only: parse_object)
    define okvs where "okvs = map (\<lambda>(k, r, a). (k, projr r))
                (filter (\<lambda>(k, r, a). projr r \<noteq> JUndefined \<or> a) ?pairs)"
    have w: "w = JObj okvs" using merge_object_valid [OF m] okvs_def by blast
    have field: "parse s now (p @ [Key k]) (get_prop kvs k) = Inr (get_prop okvs k)"
      if "(k, s) \<in> set shape" for k s
      using object_field [OF d po that] w by simp
    let ?valid = "map (\<lambda>(k, s). (k, Inr (get_prop okvs k) :: issue list + jsval, has_prop kvs k)) shape"
    have pairs: "?pairs = ?valid"
      using field by (intro map_cong refl) auto
    have okvs: "okvs = map (\<lambda>(k, r, a). (k, projr r))
                (filter (\<lambda>(k, r, a). projr r \<noteq> JUndefined \<or> a) ?valid)"
      using okvs_def [unfolded pairs] .
    have has: "has_prop okvs k = (get_prop okvs k \<noteq> JUndefined \<or> has_prop kvs k)"
      if "(k, s) \<in> set shape" for k s
    proof -
      have mem: "(k, parse s now (p @ [Key k]) (get_prop kvs k), has_prop kvs k) \<in> set ?pairs"
        using that by force
      have dp: "distinct (map fst ?pairs)" using d by (simp only: field_pairs_keys)
      have "has_prop okvs k
          = (projr (parse s now (p @ [Key k]) (get_prop kvs k)) \<noteq> JUndefined \<or> has_prop kvs k)"
        unfolding okvs_def by (rule kept_has [OF dp mem])
      then show ?thesis by (simp only: field [OF that] sum.sel)
    qed
    have again: "parse s later (q @ [Key k]) (get_prop okvs k) = Inr (get_prop okvs k)"
      if "(k, s) \<in> set shape" for k s
    proof -
      have "static s" "distinct_keys s" using ZObject.prems(1,2) that by (auto simp: list_all_iff)
      then show ?thesis using ZObject.IH [of "(k, s)" s] that field [OF that] by simp
    qed
    let ?again = "map (\<lambda>(k, s). (k, Inr (get_prop okvs k) :: issue list + jsval,
                      get_prop okvs k \<noteq> JUndefined \<or> has_prop kvs k)) shape"
    have "map (\<lambda>(k, s). (k, parse s later (q @ [Key k]) (get_prop okvs k), has_prop okvs k)) shape
        = ?again"
      using again has by (intro map_cong refl) auto
    then have "parse (ZObject shape) later q (JObj okvs) = merge_object ?again"
      by (simp only: parse_object)
    also have "\<dots> = Inr (JObj (map (\<lambda>(k, r, a). (k, projr r))
       (filter (\<lambda>(k, r, a). projr r \<noteq> JUndefined \<or> a) ?again)))"
      by (rule merge_object_Inr) (rule valid_pairs)
    also have "map (\<lambda>(k, r, a). (k, projr r))
       (filter (\<lambda>(k, r, a). projr r \<noteq> JUndefined \<or> a) ?again) = okvs"
      unfolding okvs [symmetric] by (rule trans [OF kept_same okvs [symmetric]])
    finally show ?thesis using w by simp
  qed (use ZObject.prems(3) in \<open>simp_all add: invalid_type_def\<close>)
next
  case (ZOptional s)
  show ?case
  proof (cases "v = JUndefined")
    case True
    then show ?thesis using ZOptional.prems(3) by auto
  next
    case False
    then have "parse s now p v = Inr w" using ZOptional.prems(3) by simp
    then have "parse s later q w = Inr w" using ZOptional.IH ZOptional.prems(1,2) by simp
    then show ?thesis by simp
  qed
next
  case (ZDefault s d)
  obtain dv where d: "d = DefaultValue dv" using ZDefault.prems(1) by (cases d) simp_all
  let ?v = "if v = JUndefined then dv else v"
  have a: "parse s now p ?v = Inr w"
    using ZDefault.prems(3) d by (cases "v = JUndefined") simp_all
  then have again: "parse s later q w = Inr w"
    using ZDefault.IH ZDefault.prems(1,2) d by simp
  show ?case
  proof (cases "w = JUndefined")
    case True
    then have "?v = JUndefined" using a parse_undefined by blast
    then have "dv = JUndefined" by (cases "v = JUndefined") simp_all
    then show ?thesis using again True d by simp
  next
    case False
    then show ?thesis using again d by simp
  qed
qed

lemma distinct_keys_declared:
  "distinct_keys (RecordSchema t0)" "distinct_keys (TagSchema t0)" "distinct_keys (TaskSchema t0)"
  "distinct_keys (ReactionSchema t0 t1)" "distinct_keys ReminderSchema"
  "distinct_keys (ExtraFieldSchema t0)"
  by (simp_all add: RecordSchema_def TagSchema_def TaskSchema_def ReactionSchema_def
      ReminderSchema_def ExtraFieldSchema_def spread_def)

text \<open>
  C9: a value that validation returned validates again, against the same contract and at
  any later time, to the very same value.  This holds of every contract whose defaults
  are values and whose shapes list no key twice, among them every declared contract.
\<close>

theorem C9:
  assumes "(static c \<and> distinct_keys c)
           \<or> c \<in> set [RecordSchema t0, TagSchema t0, TaskSchema t0, ReactionSchema t0 t1,
                        ReminderSchema, ExtraFieldSchema t0]"
    and "safeParse c now raw = Inr v"
  shows "safeParse c later v = Inr v"
proof -
  have "static c \<and> distinct_keys c"
    using assms(1) static_declared distinct_keys_declared by auto
  then show ?thesis
    using assms(2) unfolding safeParse_def by (blast intro: parse_idempotent)
qed

theorem C9_witness:
  "safeParse (RecordSchema 0) 9 (JObj [(''id'', JStr uuid_example), (''createdAt'', JDate (Some 0))])
   = Inr (JObj [(''id'', JStr uuid_example), (''createdAt'', JDate (Some 0))])"
proof -
  have r: "safeParse (RecordSchema 0) 5 (JObj [(''id'', JStr uuid_example)])
           = Inr (JObj [(''id'', JStr uuid_example), (''createdAt'', JDate (Some 0))])"
    using uuid_example_ok
    by (simp add: safeParse_def RecordSchema_def merge_object_def has_prop_def)
  have m: "(static (RecordSchema 0) \<and> distinct_keys (RecordSchema 0))
           \<or> RecordSchema 0 \<in> set [RecordSchema 0, TagSchema 0, TaskSchema 0, ReactionSchema 0 1,
                        ReminderSchema, ExtraFieldSchema 0]"
    by simp
  show ?thesis by (rule C9 [OF m r])
qed

section \<open>The base contract with one more field\<close>

lemma extra_field_shape:
  "ExtraFieldSchema t0 = ZObject (shape_of (RecordSchema t0) @ [(''extraField'', ZString [])])"
  by (simp add: ExtraFieldSchema_def RecordSchema_def spread_def)

lemma pairs_append_issues:
  "issues_of (parse (ZObject (shape @ [(k, s)])) now p (JObj kvs))
   = issues_of (parse (ZObject shape) now p (JObj kvs))
     @ issues_of (parse s now (p @ [Key k]) (get_prop kvs k))"
  by (simp only: parse_object merge_object_issues) simp

text \<open>
  C4: against the base contract extended with the required string field
  \<^verbatim>\<open>extraField\<close>, the object \<^verbatim>\<open>{id: u, createdAt: t, extraField: "x"}\<close> validates to
  itself, and \<^verbatim>\<open>{id: u, createdAt: t}\<close> fails with the single issue "required" at path
  \<^verbatim>\<open>extraField\<close>.  The extended contract declares the three base fields as the base
  does; on every input object its issues are the base contract's issues followed by
  those of \<^verbatim>\<open>extraField\<close>, and where it succeeds the base contract succeeds with the
  same values of the three base fields.
\<close>

theorem C4:
  "(uuid_ok u \<longrightarrow>
      safeParse (ExtraFieldSchema t0) now
        (JObj [(''id'', JStr u), (''createdAt'', JDate (Some t)), (''extraField'', JStr ''x'')])
      = Inr (JObj [(''id'', JStr u), (''createdAt'', JDate (Some t)), (''extraField'', JStr ''x'')]))
   \<and> (uuid_ok u \<longrightarrow>
      safeParse (ExtraFieldSchema t0) now (JObj [(''id'', JStr u), (''createdAt'', JDate (Some t))])
      = Inl [\<lparr>path = [Key ''extraField''], code = InvalidType PString PUndefined, message = None\<rparr>])
   \<and> includes_record_fields t0 (ExtraFieldSchema t0)
   \<and> issues_of (safeParse (ExtraFieldSchema t0) now (JObj kvs))
       = issues_of (safeParse (RecordSchema t0) now (JObj kvs))
         @ issues_of (parse (ZString []) now [Key ''extraField''] (get_prop kvs ''extraField''))
   \<and> (safeParse (ExtraFieldSchema t0) now (JObj kvs) = Inr v \<longrightarrow>
        (\<exists>b. safeParse (RecordSchema t0) now (JObj kvs) = Inr b
           \<and> field_of b ''id'' = field_of v ''id''
           \<and> field_of b ''createdAt'' = field_of v ''createdAt''
           \<and> field_of b ''updatedAt'' = field_of v ''updatedAt''))"
proof (intro conjI impI)
  assume "uuid_ok u"
  then show "safeParse (ExtraFieldSchema t0) now
        (JObj [(''id'', JStr u), (''createdAt'', JDate (Some t)), (''extraField'', JStr ''x'')])
      = Inr (JObj [(''id'', JStr u), (''createdAt'', JDate (Some t)), (''extraField'', JStr ''x'')])"
    by (simp add: safeParse_def extra_field_shape RecordSchema_def merge_object_def has_prop_def)
next
  assume "uuid_ok u"
  then show "safeParse (ExtraFieldSchema t0) now (JObj [(''id'', JStr u), (''createdAt'', JDate (Some t))])
      = Inl [\<lparr>path = [Key ''extraField''], code = InvalidType PString PUndefined, message = None\<rparr>]"
    by (simp add: safeParse_def extra_field_shape RecordSchema_def merge_object_def has_prop_def
        invalid_type_def)
next
  show "includes_record_fields t0 (ExtraFieldSchema t0)"
    by (simp add: includes_record_fields_def extra_field_shape RecordSchema_def)
next
  show "issues_of (safeParse (ExtraFieldSchema t0) now (JObj kvs))
       = issues_of (safeParse (RecordSchema t0) now (JObj kvs))
         @ issues_of (parse (ZString []) now [Key ''extraField''] (get_prop kvs ''extraField''))"
    unfolding safeParse_def extra_field_shape
    by (subst pairs_append_issues) (simp add: RecordSchema_def del: parse.simps)
next
  assume v: "safeParse (ExtraFieldSchema t0) now (JObj kvs) = Inr v"
  let ?base = "shape_of (RecordSchema t0)"
  let ?ext = "?base @ [(''extraField'', ZString [])]"
  have e: "parse (ZObject ?ext) now [] (JObj kvs) = Inr v"
    using v unfolding safeParse_def extra_field_shape .
  have de: "distinct (map fst ?ext)" and db: "distinct (map fst ?base)"
    by (simp_all add: RecordSchema_def)
  have sub: "(k, s) \<in> set ?ext" if "(k, s) \<in> set ?base" for k s using that by simp
  have fv: "parse s now ([] @ [Key k]) (get_prop kvs k) = Inr (field_of v k)"
    if "(k, s) \<in> set ?base" for k s
    using object_field [OF de e sub [OF that]] .
  have "\<not> isl (parse (ZObject ?base) now [] (JObj kvs))"
    using fv by (simp only: parse_object merge_object_isl) force
  then obtain b where b: "parse (ZObject ?base) now [] (JObj kvs) = Inr b"
    using valid_result by blast
  have fb: "parse s now ([] @ [Key k]) (get_prop kvs k) = Inr (field_of b k)"
    if "(k, s) \<in> set ?base" for k s
    using object_field [OF db b that] .
  have same: "field_of b k = field_of v k" if "(k, s) \<in> set ?base" for k s
    using fv [OF that] fb [OF that] by simp
  have "safeParse (RecordSchema t0) now (JObj kvs) = Inr b"
    using b by (simp add: safeParse_def RecordSchema_def del: parse.simps)
  moreover have "field_of b ''id'' = field_of v ''id''"
    by (rule same [of _ "ZString [Uuid]"]) (simp add: RecordSchema_def)
  moreover have "field_of b ''createdAt'' = field_of v ''createdAt''"
    by (rule same [of _ "ZDefault ZDate (DefaultValue (JDate (Some t0)))"]) (simp add: RecordSchema_def)
  moreover have "field_of b ''updatedAt'' = field_of v ''updatedAt''"
    by (rule same [of _ "ZOptional ZDate"]) (simp add: RecordSchema_def)
  ultimately show "\<exists>b. safeParse (RecordSchema t0) now (JObj kvs) = Inr b
           \<and> field_of b ''id'' = field_of v ''id''
           \<and> field_of b ''createdAt'' = field_of v ''createdAt''
           \<and> field_of b ''updatedAt'' = field_of v ''updatedAt''"
    by blast
qed

theorem C4_witness:
  "safeParse (ExtraFieldSchema 0) 5
        (JObj [(''id'', JStr uuid_example), (''createdAt'', JDate (Some 3)), (''extraField'', JStr ''x'')])
      = Inr (JObj [(''id'', JStr uuid_example), (''createdAt'', JDate (Some 3)), (''extraField'', JStr ''x'')])
   \<and> safeParse (ExtraFieldSchema 0) 5 (JObj [(''id'', JStr uuid_example), (''createdAt'', JDate (Some 3))])
      = Inl [\<lparr>path = [Key ''extraField''], code = InvalidType PString PUndefined, message = None\<rparr>]
   \<and> (\<exists>b. safeParse (RecordSchema 0) 5
          (JObj [(''id'', JStr uuid_example), (''createdAt'', JDate (Some 3)), (''extraField'', JStr ''x'')])
          = Inr b \<and> field_of b ''id'' = JStr uuid_example)"
  using C4 [where u = uuid_example and ?t0.0 = 0 and now = 5 and t = 3
              and kvs = "[(''id'', JStr uuid_example), (''createdAt'', JDate (Some 3)),
                          (''extraField'', JStr ''x'')]"
              and v = "JObj [(''id'', JStr uuid_example), (''createdAt'', JDate (Some 3)),
                          (''extraField'', JStr ''x'')]"]
        uuid_example_ok
  by auto

end
